theory Spec2Isabelle
  imports Main "HOL-Library.Word" "HOL-Library.Multiset"
begin

section \<open>Exceptions and undefined behaviour\<close>

text \<open>
  The only exception the program throws or catches is \<^verbatim>\<open>std::out_of_range\<close>. A call that may
  throw returns \<open>exn + 'a\<close>, with \<open>Inl\<close> for the exception. Undefined behaviour of C++ (iterator
  arithmetic outside the container, \<^verbatim>\<open>std::pop_heap\<close> on an empty range) is the value \<open>None\<close>
  of an \<open>option\<close>.
\<close>

datatype exn = out_of_range

section \<open>std::unordered_map\<close>

text \<open>
  \<^verbatim>\<open>std::unordered_map<K, V>\<close> is the sequence of its entries in iteration order. The standard
  leaves that order open; the model puts a new key at the front, which is the order the
  expected outputs in \<^verbatim>\<open>main\<close> show (\<^verbatim>\<open>ccbba\<close>, \<^verbatim>\<open>dccbbaaa\<close>). Lookups take the first entry of a key.
\<close>

type_synonym ('k, 'v) unordered_map = "('k \<times> 'v) list"

definition um_at :: "('k, 'v) unordered_map \<Rightarrow> 'k \<Rightarrow> exn + 'v" where
  \<comment> \<open>\<^verbatim>\<open>at(k)\<close>: throws \<^verbatim>\<open>std::out_of_range\<close> when the key is absent.\<close>
  "um_at m k = (case map_of m k of None \<Rightarrow> Inl out_of_range | Some v \<Rightarrow> Inr v)"

definition um_insert :: "('k, 'v) unordered_map \<Rightarrow> 'k \<times> 'v \<Rightarrow> ('k, 'v) unordered_map" where
  \<comment> \<open>\<^verbatim>\<open>insert(value)\<close>: inserts only if no element with an equivalent key is present.\<close>
  "um_insert m kv = (if map_of m (fst kv) = None then kv # m else m)"

definition um_init :: "('k \<times> 'v) list \<Rightarrow> ('k, 'v) unordered_map" where
  \<comment> \<open>The constructor from an initializer list: an empty container, then \<^verbatim>\<open>insert\<close> of each
      element of the list in turn.\<close>
  "um_init il = fold (\<lambda>kv m. um_insert m kv) il []"

definition um_index :: "'v \<Rightarrow> ('k, 'v) unordered_map \<Rightarrow> 'k \<Rightarrow> ('k, 'v) unordered_map" where
  \<comment> \<open>\<^verbatim>\<open>operator[](k)\<close>: the container after the call. An absent key is inserted with the
      value-initialised \<open>d\<close>; the reference returned denotes the slot of \<open>k\<close>.\<close>
  "um_index d m k = (if map_of m k = None then (k, d) # m else m)"

definition um_modify :: "('k, 'v) unordered_map \<Rightarrow> 'k \<Rightarrow> ('v \<Rightarrow> 'v) \<Rightarrow> ('k, 'v) unordered_map" where
  \<comment> \<open>A write through the reference to the slot of \<open>k\<close>: the stored value \<open>v\<close> becomes \<open>g v\<close>.\<close>
  "um_modify m k g = map (\<lambda>(k', v). if k' = k then (k', g v) else (k', v)) m"

definition um_index_assign :: "('k, 'v) unordered_map \<Rightarrow> 'k \<Rightarrow> 'v \<Rightarrow> ('k, 'v) unordered_map" where
  \<comment> \<open>\<^verbatim>\<open>operator[](k) = v\<close>: the slot of \<open>k\<close>, inserted if absent, is overwritten with \<open>v\<close>.\<close>
  "um_index_assign m k v = um_modify (um_index v m k) k (\<lambda>_. v)"

section \<open>defaultdict\<close>

text \<open>
  \<^verbatim>\<open>defaultdict<K, V>\<close> is an \<^verbatim>\<open>unordered_map<K, V>\<close> with a function pointer \<^verbatim>\<open>V (*f)()\<close>. The
  function takes no argument, so whatever it reads or changes is outside the object: a
  world state \<open>'w\<close>, which a call of \<open>f\<close> takes and returns.
\<close>

record ('k, 'v, 'w) defaultdict =
  base :: "('k, 'v) unordered_map"
  dd_f :: "'w \<Rightarrow> 'v \<times> 'w"

definition defaultdict_il ::
  "('w \<Rightarrow> 'v \<times> 'w) \<Rightarrow> ('k \<times> 'v) list \<Rightarrow> ('k, 'v, 'w) defaultdict" where
  \<comment> \<open>\<^verbatim>\<open>defaultdict(f, il) : f(f), std::unordered_map<K, V>(il)\<close>\<close>
  "defaultdict_il f il = \<lparr>base = um_init il, dd_f = f\<rparr>"

definition dd_index ::
  "('k, 'v, 'w) defaultdict \<Rightarrow> 'k \<Rightarrow> 'w \<Rightarrow> 'v \<times> ('k, 'v, 'w) defaultdict \<times> 'w" where
  \<comment> \<open>\<^verbatim>\<open>operator[]\<close>: the value of the returned reference, the object and the world after the
      call. In the handler \<^verbatim>\<open>f()\<close> is evaluated, then the slot is created and assigned.\<close>
  "dd_index d k w =
     (case um_at (base d) k of
        Inr v \<Rightarrow> (v, d, w)
      | Inl out_of_range \<Rightarrow>
          (let (v, w') = dd_f d w
           in (v, d\<lparr>base := um_index_assign (base d) k v\<rparr>, w')))"

definition dd_at ::
  "('k, 'v, 'w) defaultdict \<Rightarrow> 'k \<Rightarrow> 'w \<Rightarrow> 'v \<times> ('k, 'v, 'w) defaultdict \<times> 'w" where
  \<comment> \<open>\<^verbatim>\<open>V& at(const K& k) { return (*this)[k]; }\<close>\<close>
  "dd_at d k w = dd_index d k w"

section \<open>Counter\<close>

text \<open>
  \<^verbatim>\<open>Counter<T>\<close> is an \<^verbatim>\<open>unordered_map<T, int>\<close>. \<^verbatim>\<open>int\<close> is a 32-bit word read as two's complement
  by \<open>sint\<close>; \<open>+\<close> and \<open>-\<close> wrap around.
\<close>

type_synonym c_int = "32 word"
type_synonym 't Counter = "('t, c_int) unordered_map"

definition Counter_il :: "('t \<times> c_int) list \<Rightarrow> 't Counter" where
  "Counter_il il = um_init il"



definition count0 :: "'t Counter \<Rightarrow> 't \<Rightarrow> c_int" where
  \<comment> \<open>The count of an element as the spec reads it: an absent element counts 0.\<close>
  "count0 c t = (case map_of c t of Some n \<Rightarrow> n | None \<Rightarrow> 0)"

subsection \<open>Counter::Iter and elements()\<close>

text \<open>
  An iterator of the underlying map is a position in the entry sequence; \<^verbatim>\<open>end()\<close> is the
  length. Reading an entry at or past the end is undefined.
\<close>

definition entry_at :: "'t Counter \<Rightarrow> nat \<Rightarrow> ('t \<times> c_int) option" where
  "entry_at c i = (if i < length c then Some (c ! i) else None)"

record Iter =
  curr :: nat
  end' :: nat
  count' :: c_int

definition Iter_ctor :: "'t Counter \<Rightarrow> nat \<Rightarrow> nat \<Rightarrow> Iter option" where
  \<comment> \<open>\<^verbatim>\<open>Iter(i, e) : curr(i), end(e), count(i == e ? 0 : i->second)\<close>\<close>
  "Iter_ctor c i e =
     (if i = e then Some \<lparr>curr = i, end' = e, count' = 0\<rparr>
      else (case entry_at c i of
              None \<Rightarrow> None
            | Some p \<Rightarrow> Some \<lparr>curr = i, end' = e, count' = snd p\<rparr>))"

definition Iter_deref :: "'t Counter \<Rightarrow> Iter \<Rightarrow> 't option" where
  \<comment> \<open>\<^verbatim>\<open>operator*\<close>: \<^verbatim>\<open>curr->first\<close>\<close>
  "Iter_deref c it = map_option fst (entry_at c (curr it))"

function Iter_skip :: "'t Counter \<Rightarrow> Iter \<Rightarrow> Iter option" where
  \<comment> \<open>\<^verbatim>\<open>while (count <= 0 && ++curr != end) count = curr->second;\<close>\<close>
  "Iter_skip c it =
     (if sint (count' it) \<le> 0 then
        (if length c \<le> curr it then None
         else (let it1 = it\<lparr>curr := Suc (curr it)\<rparr>
               in if curr it1 \<noteq> end' it1 then
                    (case entry_at c (curr it1) of
                       None \<Rightarrow> None
                     | Some p \<Rightarrow> Iter_skip c (it1\<lparr>count' := snd p\<rparr>))
                  else Some it1))
      else Some it)"
  by pat_completeness auto
termination
  by (relation "measure (\<lambda>(c, it). length c - curr it)") auto

declare Iter_skip.simps [simp del]

definition Iter_inc :: "'t Counter \<Rightarrow> Iter \<Rightarrow> Iter option" where
  \<comment> \<open>\<^verbatim>\<open>operator++()\<close>: \<^verbatim>\<open>--count\<close>, then the loop.\<close>
  "Iter_inc c it = Iter_skip c (it\<lparr>count' := count' it - 1\<rparr>)"

function elements_skip :: "'t Counter \<Rightarrow> nat \<Rightarrow> nat \<Rightarrow> nat option" where
  \<comment> \<open>\<^verbatim>\<open>while (i != j && i->second <= 0) ++i;\<close>\<close>
  "elements_skip c i j =
     (if i \<noteq> j then
        (case entry_at c i of
           None \<Rightarrow> None
         | Some p \<Rightarrow> if sint (snd p) \<le> 0 then elements_skip c (Suc i) j else Some i)
      else Some i)"
  by pat_completeness auto
termination
  by (relation "measure (\<lambda>(c, i, j). length c - i)") (auto simp: entry_at_def split: if_splits)

declare elements_skip.simps [simp del]

definition elements :: "'t Counter \<Rightarrow> (Iter \<times> Iter) option" where
  \<comment> \<open>The range \<^verbatim>\<open>{{i, j}, {j, j}}\<close>: its begin and end.\<close>
  "elements c =
     (let j = length c
      in case elements_skip c 0 j of
           None \<Rightarrow> None
         | Some i \<Rightarrow>
             (case (Iter_ctor c i j, Iter_ctor c j j) of
                (Some b, Some e) \<Rightarrow> Some (b, e)
              | _ \<Rightarrow> None))"

text \<open>
  The loop of a range-based \<^verbatim>\<open>for\<close> over \<^verbatim>\<open>elements()\<close> ends: each \<^verbatim>\<open>++\<close> either moves \<open>curr\<close>
  towards the end of the container or lowers a positive \<open>count\<close>.
\<close>

lemma unat_dec: "0 < sint (n - 1 :: c_int) \<Longrightarrow> unat (n - 1) < unat n"
proof -
  assume pos: "0 < sint (n - 1)"
  have "n \<noteq> 0"
  proof
    assume "n = 0"
    with pos show False by simp
  qed
  then show ?thesis by (simp add: unat_minus_one unat_gt_0)
qed

lemma Iter_skip_progress:
  "Iter_skip c it = Some it' \<Longrightarrow>
     (it' = it \<and> 0 < sint (count' it)) \<or> (curr it < curr it' \<and> curr it' \<le> length c)"
proof (induction c it rule: Iter_skip.induct)
  case (1 c it)
  show ?case
  proof (cases "sint (count' it) \<le> 0")
    case False
    with "1.prems" show ?thesis by (simp add: Iter_skip.simps [of c it])
  next
    case True
    note nonpos = this
    show ?thesis
    proof (cases "length c \<le> curr it")
      case True
      with nonpos "1.prems" show ?thesis by (simp add: Iter_skip.simps [of c it])
    next
      case False
      note inside = this
      show ?thesis
      proof (cases "Suc (curr it) = end' it")
        case True
        with nonpos inside "1.prems" show ?thesis
          by (auto simp add: Iter_skip.simps [of c it] Let_def)
      next
        case False
        note more = this
        show ?thesis
        proof (cases "entry_at c (Suc (curr it))")
          case None
          with nonpos inside more "1.prems" show ?thesis
            by (simp add: Iter_skip.simps [of c it] Let_def)
        next
          case (Some p)
          let ?it2 = "it\<lparr>curr := Suc (curr it), count' := snd p\<rparr>"
          from nonpos inside more Some "1.prems" have r: "Iter_skip c ?it2 = Some it'"
            by (simp add: Iter_skip.simps [of c it] Let_def)
          from Some have lt: "Suc (curr it) < length c"
            by (simp add: entry_at_def split: if_splits)
          have "(it' = ?it2 \<and> 0 < sint (count' ?it2)) \<or> (curr ?it2 < curr it' \<and> curr it' \<le> length c)"
            using "1.IH" [OF nonpos inside refl, of p] more Some r by simp
          with lt show ?thesis by auto
        qed
      qed
    qed
  qed
qed

text \<open>
  \<^verbatim>\<open>for (x : r)\<close> over a range \<open>(it, e)\<close>: \<^verbatim>\<open>for (; it != e; ++it) { x = *it; ... }\<close>, as the
  sequence of the values \<open>x\<close>. \<^verbatim>\<open>operator!=\<close> compares \<open>curr\<close> only.
\<close>

function range_for :: "'t Counter \<Rightarrow> Iter \<Rightarrow> Iter \<Rightarrow> 't list option" where
  "range_for c it e =
     (if curr it \<noteq> curr e then
        (case Iter_deref c it of
           None \<Rightarrow> None
         | Some x \<Rightarrow>
             (case Iter_inc c it of
                None \<Rightarrow> None
              | Some it' \<Rightarrow>
                  (case range_for c it' e of
                     None \<Rightarrow> None
                   | Some xs \<Rightarrow> Some (x # xs))))
      else Some [])"
  by pat_completeness auto
termination
proof (relation "measures [\<lambda>(c :: 't Counter, it :: Iter, e :: Iter). length c - curr it,
    \<lambda>(c, it, e). unat (count' it)]")
  show "wf (measures [\<lambda>(c :: 't Counter, it :: Iter, e :: Iter). length c - curr it,
    \<lambda>(c, it, e). unat (count' it)])"
    by simp
next
  fix c :: "'t Counter" and it e :: Iter and x it'
  assume ne: "curr it \<noteq> curr e" and d: "Iter_deref c it = Some x" and i: "Iter_inc c it = Some it'"
  let ?it1 = "it\<lparr>count' := count' it - 1\<rparr>"
  from i have "(it' = ?it1 \<and> 0 < sint (count' ?it1)) \<or> (curr ?it1 < curr it' \<and> curr it' \<le> length c)"
    unfolding Iter_inc_def by (rule Iter_skip_progress)
  then show "((c, it', e), (c, it, e)) \<in> measures [\<lambda>(c :: 't Counter, it :: Iter, e :: Iter). length c - curr it,
    \<lambda>(c, it, e). unat (count' it)]"
    using unat_dec [of "count' it"] by auto
qed

declare range_for.simps [simp del]

definition elements_yield :: "'t Counter \<Rightarrow> 't list option" where
  \<comment> \<open>What \<^verbatim>\<open>for (x : c.elements())\<close> visits.\<close>
  "elements_yield c = (case elements c of None \<Rightarrow> None | Some (b, e) \<Rightarrow> range_for c b e)"

text \<open>
  The sequence as the spec words it: every entry in iteration order, its element repeated
  \<open>max(count, 0)\<close> times.
\<close>

definition spec_elements :: "'t Counter \<Rightarrow> 't list" where
  "spec_elements c = concat (map (\<lambda>p. replicate (nat (max 0 (sint (snd p)))) (fst p)) c)"

subsection \<open>most_common\<close>

text \<open>
  \<^verbatim>\<open>std::make_heap\<close> and \<^verbatim>\<open>std::pop_heap\<close> are library functions and parameters of the model.
  What the C++ standard says of them is \<open>heap_contract\<close>: \<^verbatim>\<open>make_heap\<close> permutes the range into a
  heap; \<^verbatim>\<open>pop_heap\<close>, on a non-empty heap, swaps the first value into the last place and
  makes the rest a heap. A range \<open>xs\<close> is a heap for \<open>lt\<close> when no element is \<open>lt\<close>-less
  than its child (the children of position \<open>p\<close> are at \<open>2p + 1\<close> and \<open>2p + 2\<close>).
\<close>

type_synonym 't entry = "'t \<times> c_int"

definition cmp :: "'t entry \<Rightarrow> 't entry \<Rightarrow> bool" where
  \<comment> \<open>\<^verbatim>\<open>[](const pair<T, int> &l, const pair<T, int> &r) { return l.second < r.second; }\<close>\<close>
  "cmp l r = (sint (snd l) < sint (snd r))"

definition is_heap :: "('a \<Rightarrow> 'a \<Rightarrow> bool) \<Rightarrow> 'a list \<Rightarrow> bool" where
  "is_heap lt xs = (\<forall>i \<in> {1 ..< length xs}. \<not> lt (xs ! ((i - 1) div 2)) (xs ! i))"

definition heap_contract ::
  "(('t entry \<Rightarrow> 't entry \<Rightarrow> bool) \<Rightarrow> 't entry list \<Rightarrow> 't entry list) \<Rightarrow>
   (('t entry \<Rightarrow> 't entry \<Rightarrow> bool) \<Rightarrow> 't entry list \<Rightarrow> 't entry list) \<Rightarrow> bool" where
  "heap_contract make_heap pop_heap =
     ((\<forall>xs. is_heap cmp (make_heap cmp xs) \<and> mset (make_heap cmp xs) = mset xs) \<and>
      (\<forall>xs. xs \<noteq> [] \<and> is_heap cmp xs \<longrightarrow>
         last (pop_heap cmp xs) = hd xs \<and> is_heap cmp (butlast (pop_heap cmp xs)) \<and>
         mset (pop_heap cmp xs) = mset xs))"

function pop_loop :: "('a list \<Rightarrow> 'a list) \<Rightarrow> 'a list \<Rightarrow> nat \<Rightarrow> int \<Rightarrow> 'a list option" where
  \<comment> \<open>\<^verbatim>\<open>for (int i = 0; i < n; ++i) std::pop_heap(v.begin(), v.end() - i, cmp);\<close> from \<open>i\<close> on.
      The range \<^verbatim>\<open>[v.begin(), v.end() - i)\<close> has to be a non-empty part of \<open>v\<close>.\<close>
  "pop_loop pop v i n =
     (if int i < n then
        (if length v \<le> i then None
         else pop_loop pop (pop (take (length v - i) v) @ drop (length v - i) v) (Suc i) n)
      else Some v)"
  by pat_completeness auto
termination
  by (relation "measure (\<lambda>(pop, v, i, n). nat (n - int i))") auto

declare pop_loop.simps [simp del]

definition most_common ::
  "(('t entry \<Rightarrow> 't entry \<Rightarrow> bool) \<Rightarrow> 't entry list \<Rightarrow> 't entry list) \<Rightarrow>
   (('t entry \<Rightarrow> 't entry \<Rightarrow> bool) \<Rightarrow> 't entry list \<Rightarrow> 't entry list) \<Rightarrow>
   't Counter \<Rightarrow> int \<Rightarrow> ('t entry list \<times> 't Counter) option" where
  \<comment> \<open>The vector returned and the Counter after the call. The reverse range
      \<^verbatim>\<open>[v.end(), v.end() - n)\<close> has to lie in \<open>v\<close>.\<close>
  "most_common make_heap pop_heap c n0 =
     (let n = (if n0 = 0 then int (length c) else n0);
          v = make_heap cmp c
      in case pop_loop (pop_heap cmp) v 0 n of
           None \<Rightarrow> None
         | Some v' \<Rightarrow>
             if n < 0 \<or> int (length v') < n then None
             else Some (rev (drop (length v' - nat n) v'), c))"

text \<open>
  An implementation that meets the contract, to run \<open>most_common\<close> on concrete Counters: a
  range in descending order is a heap.
\<close>

fun ref_insert :: "('a \<Rightarrow> 'a \<Rightarrow> bool) \<Rightarrow> 'a \<Rightarrow> 'a list \<Rightarrow> 'a list" where
  "ref_insert lt x [] = [x]"
| "ref_insert lt x (y # ys) = (if lt x y then y # ref_insert lt x ys else x # y # ys)"

definition ref_make_heap :: "('a \<Rightarrow> 'a \<Rightarrow> bool) \<Rightarrow> 'a list \<Rightarrow> 'a list" where
  "ref_make_heap lt xs = foldr (ref_insert lt) xs []"

definition ref_pop_heap :: "('a \<Rightarrow> 'a \<Rightarrow> bool) \<Rightarrow> 'a list \<Rightarrow> 'a list" where
  "ref_pop_heap lt xs = (case xs of [] \<Rightarrow> [] | x # r \<Rightarrow> ref_make_heap lt r @ [x])"

text \<open>The state of the vector after \<open>i\<close> rounds of the loop.\<close>

definition popped :: "'t Counter \<Rightarrow> nat \<Rightarrow> 't entry list \<Rightarrow> bool" where
  "popped c i v =
     (mset v = mset c \<and> i \<le> length c \<and>
      is_heap cmp (take (length c - i) v) \<and>
      sorted_wrt (\<lambda>a b. sint (snd a) \<le> sint (snd b)) (drop (length c - i) v) \<and>
      (\<forall>x \<in> set (take (length c - i) v). \<forall>y \<in> set (drop (length c - i) v).
         sint (snd x) \<le> sint (snd y)))"

definition descending :: "'t entry list \<Rightarrow> bool" where
  "descending xs = sorted_wrt (\<lambda>a b. sint (snd b) \<le> sint (snd a)) xs"

subsection \<open>update, +=, -=, total\<close>

definition Counter_apply :: "(c_int \<Rightarrow> c_int) \<Rightarrow> 't Counter \<Rightarrow> 't \<Rightarrow> 't Counter" where
  \<comment> \<open>\<^verbatim>\<open>(*this)[t]\<close> changed in place by \<open>g\<close>: the slot is created with 0 when absent.\<close>
  "Counter_apply g c t = um_modify (um_index 0 c t) t g"

definition update :: "'t Counter \<Rightarrow> 't list \<Rightarrow> 't Counter" where
  \<comment> \<open>\<^verbatim>\<open>for (const T& t : l) ++(*this)[t];\<close>\<close>
  "update c l = fold (\<lambda>t c. Counter_apply (\<lambda>x. x + 1) c t) l c"

definition total :: "'t Counter \<Rightarrow> c_int" where
  \<comment> \<open>\<^verbatim>\<open>int s = 0; for (auto &t : *this) s += t.second;\<close>\<close>
  "total c = fold (\<lambda>t s. s + snd t) c 0"

text \<open>
  \<^verbatim>\<open>operator+=\<close> and \<^verbatim>\<open>operator-=\<close> take their operand by reference, and the operand may be the
  object itself. Counters therefore live in a store, and the loop reads the entries of the
  operand from the store as it goes.
\<close>

type_synonym addr = nat
type_synonym 't Counter_store = "addr \<Rightarrow> 't Counter"

lemma entry_at_map_of: "entry_at c i = Some (k, n) \<Longrightarrow> map_of c k \<noteq> None"
  by (auto simp: entry_at_def map_of_eq_None_iff split: if_splits intro!: image_eqI [of _ _ "(k, n)"] dest: nth_mem)

lemma length_Counter_apply: "map_of c k \<noteq> None \<Longrightarrow> length (Counter_apply g c k) = length c"
  by (simp add: Counter_apply_def um_index_def um_modify_def)

function assign_loop ::
  "(c_int \<Rightarrow> c_int \<Rightarrow> c_int) \<Rightarrow> 't Counter_store \<Rightarrow> addr \<Rightarrow> addr \<Rightarrow> nat \<Rightarrow> 't Counter_store" where
  \<comment> \<open>\<^verbatim>\<open>for (auto &t : c) (*this)[t.first] op= t.second;\<close> from position \<open>i\<close> of \<open>c\<close> on.\<close>
  "assign_loop op s this c i =
     (case entry_at (s c) i of
        None \<Rightarrow> s
      | Some t \<Rightarrow>
          assign_loop op (s(this := Counter_apply (\<lambda>x. op x (snd t)) (s this) (fst t))) this c (Suc i))"
  by pat_completeness auto
termination
proof (relation "measure (\<lambda>(op, s, this, c, i). length (s c) - i)")
  show "wf (measure (\<lambda>(op :: c_int \<Rightarrow> c_int \<Rightarrow> c_int, s :: 't Counter_store, this :: addr, c :: addr, i :: nat).
    length (s c) - i))"
    by simp
next
  fix op :: "c_int \<Rightarrow> c_int \<Rightarrow> c_int" and s :: "'t Counter_store" and this c :: addr and i :: nat
    and t :: "'t entry"
  assume e: "entry_at (s c) i = Some t"
  then have present: "map_of (s c) (fst t) \<noteq> None"
    using entry_at_map_of [of "s c" i "fst t" "snd t"] by simp
  from e have "i < length (s c)"
    by (simp add: entry_at_def split: if_splits)
  then show "((op, s(this := Counter_apply (\<lambda>x. op x (snd t)) (s this) (fst t)), this, c, Suc i),
      (op, s, this, c, i)) \<in> measure (\<lambda>(op, s, this, c, i). length (s c) - i)"
    using length_Counter_apply [OF present] by auto
qed

declare assign_loop.simps [simp del]

definition add_assign :: "'t Counter_store \<Rightarrow> addr \<Rightarrow> addr \<Rightarrow> 't Counter_store" where
  \<comment> \<open>\<^verbatim>\<open>operator+=\<close> of the Counter at \<open>this\<close>, with the Counter at \<open>c\<close>.\<close>
  "add_assign s this c = assign_loop (+) s this c 0"

definition sub_assign :: "'t Counter_store \<Rightarrow> addr \<Rightarrow> addr \<Rightarrow> 't Counter_store" where
  \<comment> \<open>\<^verbatim>\<open>operator-=\<close>\<close>
  "sub_assign s this c = assign_loop (-) s this c 0"

text \<open>The Counter \<^verbatim>\<open>ct\<close> of \<^verbatim>\<open>main\<close> and the operand of its first \<^verbatim>\<open>+=\<close>, at addresses 1 and 2.\<close>

definition main_ct :: "char Counter" where
  \<comment> \<open>\<^verbatim>\<open>Counter<char> ct{{'a', 1}, {'b', 1}};\<close>\<close>
  "main_ct = Counter_il [(CHR ''a'', 1), (CHR ''b'', 1)]"

definition main_cts :: "char Counter_store" where
  \<comment> \<open>\<^verbatim>\<open>ct\<close> at 1, the temporary \<^verbatim>\<open>{{'b', 1}, {'c', 2}}\<close> at 2\<close>
  "main_cts = (\<lambda>_. [])(1 := main_ct, 2 := Counter_il [(CHR ''b'', 1), (CHR ''c'', 2)])"

definition main_ct_updated :: "char Counter" where
  \<comment> \<open>\<^verbatim>\<open>ct\<close> after \<^verbatim>\<open>ct += {{'b', 1}, {'c', 2}}\<close> and \<^verbatim>\<open>ct.update({'a', 'd', 'a'})\<close>\<close>
  "main_ct_updated = update (add_assign main_cts 1 2 1) [CHR ''a'', CHR ''d'', CHR ''a'']"

definition main_ct_final :: "char Counter" where
  \<comment> \<open>\<^verbatim>\<open>ct\<close> after \<^verbatim>\<open>ct -= {{'b', 2}, {'d', 2}}\<close>, the operand at address 3\<close>
  "main_ct_final =
     sub_assign ((\<lambda>_. [])(1 := main_ct_updated, 3 := Counter_il [(CHR ''b'', 2), (CHR ''d'', 2)])) 1 3 1"

section \<open>ChainMap\<close>

text \<open>
  A ChainMap holds references \<^verbatim>\<open>Map&\<close> to maps that live elsewhere: addresses into a store of
  maps. \<^verbatim>\<open>ChainMap<Map>\<close> is \<open>ChainMap1\<close>, and \<^verbatim>\<open>ChainMap<Map, Maps...>\<close>, which derives from
  \<^verbatim>\<open>ChainMap<Maps...>\<close>, is \<open>ChainMapN\<close>. The template takes any map type; a map is a partial
  function, with the members the ChainMap calls.
\<close>

type_synonym ('k, 'v) Map_store = "addr \<Rightarrow> ('k \<rightharpoonup> 'v)"

definition Map_at :: "('k \<rightharpoonup> 'v) \<Rightarrow> 'k \<Rightarrow> exn + 'v" where
  "Map_at m k = (case m k of None \<Rightarrow> Inl out_of_range | Some v \<Rightarrow> Inr v)"

definition Map_index :: "'v \<Rightarrow> ('k \<rightharpoonup> 'v) \<Rightarrow> 'k \<Rightarrow> ('k \<rightharpoonup> 'v)" where
  \<comment> \<open>\<^verbatim>\<open>map[k]\<close>: the map after the call; \<open>d\<close> is the default the map type gives a new slot.\<close>
  "Map_index d m k = (case m k of None \<Rightarrow> m(k \<mapsto> d) | Some v \<Rightarrow> m)"

definition Map_insert_range :: "('k \<rightharpoonup> 'v) \<Rightarrow> ('k \<rightharpoonup> 'v) \<Rightarrow> ('k \<rightharpoonup> 'v)" where
  \<comment> \<open>\<^verbatim>\<open>one.insert(map.begin(), map.end())\<close>: a key that \<open>one\<close> has already keeps its value.\<close>
  "Map_insert_range one m = (\<lambda>k. case one k of Some v \<Rightarrow> Some v | None \<Rightarrow> m k)"

definition Map_erase :: "('k \<rightharpoonup> 'v) \<Rightarrow> 'k \<Rightarrow> nat \<times> ('k \<rightharpoonup> 'v)" where
  "Map_erase m k = (case m k of None \<Rightarrow> (0, m) | Some v \<Rightarrow> (1, m(k := None)))"

datatype ChainMap = ChainMap1 addr | ChainMapN addr ChainMap

fun front :: "ChainMap \<Rightarrow> addr" where
  \<comment> \<open>The member \<^verbatim>\<open>map\<close> of the most derived class.\<close>
  "front (ChainMap1 a) = a"
| "front (ChainMapN a b) = a"

fun layers :: "ChainMap \<Rightarrow> addr list" where
  "layers (ChainMap1 a) = [a]"
| "layers (ChainMapN a b) = a # layers b"

fun get_map :: "ChainMap \<Rightarrow> nat \<Rightarrow> exn + addr" where
  "get_map (ChainMap1 a) i = (if i \<noteq> 0 then Inl out_of_range else Inr a)"
| "get_map (ChainMapN a b) i = (if i \<noteq> 0 then get_map b (i - 1) else Inr a)"

definition new_child :: "ChainMap \<Rightarrow> addr \<Rightarrow> ChainMap" where
  "new_child cm new_map = ChainMapN new_map cm"

fun ChainMap_at :: "('k, 'v) Map_store \<Rightarrow> ChainMap \<Rightarrow> 'k \<Rightarrow> exn + 'v" where
  "ChainMap_at s (ChainMap1 a) k = Map_at (s a) k"
| "ChainMap_at s (ChainMapN a b) k =
     (case Map_at (s a) k of
        Inr v \<Rightarrow> Inr v
      | Inl out_of_range \<Rightarrow> ChainMap_at s b k)"

fun ChainMap_index ::
  "'v \<Rightarrow> ('k, 'v) Map_store \<Rightarrow> ChainMap \<Rightarrow> 'k \<Rightarrow> (addr \<times> 'k) \<times> ('k, 'v) Map_store" where
  \<comment> \<open>\<^verbatim>\<open>operator[]\<close>: the reference returned, as the map and the key of its slot, and the store
      after the call. In \<^verbatim>\<open>map[k] = at(k)\<close> the right side is evaluated first.\<close>
  "ChainMap_index d s (ChainMap1 a) k = ((a, k), s(a := Map_index d (s a) k))"
| "ChainMap_index d s (ChainMapN a b) k =
     (case ChainMap_at s (ChainMapN a b) k of
        Inr v \<Rightarrow> ((a, k), s(a := (Map_index d (s a) k)(k \<mapsto> v)))
      | Inl out_of_range \<Rightarrow> ((a, k), s(a := Map_index d (s a) k)))"

definition deref :: "('k, 'v) Map_store \<Rightarrow> addr \<times> 'k \<Rightarrow> 'v option" where
  \<comment> \<open>Reading through a reference to a slot.\<close>
  "deref s r = s (fst r) (snd r)"

definition ChainMap_erase ::
  "('k, 'v) Map_store \<Rightarrow> ChainMap \<Rightarrow> 'k \<Rightarrow> nat \<times> ('k, 'v) Map_store" where
  "ChainMap_erase s cm k =
     (let (n, m) = Map_erase (s (front cm)) k in (n, s(front cm := m)))"

fun one_map_into :: "('k, 'v) Map_store \<Rightarrow> ChainMap \<Rightarrow> ('k \<rightharpoonup> 'v) \<Rightarrow> ('k \<rightharpoonup> 'v)" where
  \<comment> \<open>\<^verbatim>\<open>void one_map(Map& one)\<close>: the value of \<open>one\<close> after the call.\<close>
  "one_map_into s (ChainMap1 a) one = Map_insert_range one (s a)"
| "one_map_into s (ChainMapN a b) one = one_map_into s b (Map_insert_range one (s a))"

fun one_map :: "('k, 'v) Map_store \<Rightarrow> ChainMap \<Rightarrow> ('k \<rightharpoonup> 'v)" where
  \<comment> \<open>\<^verbatim>\<open>Map one_map()\<close>: returned by value.\<close>
  "one_map s (ChainMap1 a) = s a"
| "one_map s (ChainMapN a b) = one_map_into s (ChainMapN a b) Map.empty"

text \<open>The maps \<^verbatim>\<open>mp1\<close>, \<^verbatim>\<open>mp2\<close>, \<^verbatim>\<open>mp3\<close> and the ChainMaps \<^verbatim>\<open>cmp\<close> and \<^verbatim>\<open>n_cmp\<close> of \<^verbatim>\<open>main\<close>, at addresses 1, 2, 3.\<close>

definition main_maps :: "(char, int) Map_store" where
  "main_maps = (\<lambda>_. Map.empty)
     (1 := [CHR ''a'' \<mapsto> 1, CHR ''b'' \<mapsto> 2],
      2 := [CHR ''b'' \<mapsto> 3, CHR ''c'' \<mapsto> 4],
      3 := [CHR ''c'' \<mapsto> 5, CHR ''d'' \<mapsto> 6])"

definition main_cmp :: ChainMap where
  "main_cmp = ChainMapN 2 (ChainMap1 3)"

definition main_n_cmp :: ChainMap where
  "main_n_cmp = new_child main_cmp 1"

section \<open>Properties of defaultdict\<close>

lemma map_of_um_insert:
  "map_of (um_insert m kv) k =
     (case map_of m k of Some v \<Rightarrow> Some v | None \<Rightarrow> if k = fst kv then Some (snd kv) else None)"
  by (cases kv) (auto simp: um_insert_def split: option.split)

lemma map_of_um_insert_fold:
  "map_of (fold (\<lambda>kv m. um_insert m kv) il m) k =
     (case map_of m k of Some v \<Rightarrow> Some v | None \<Rightarrow> map_of il k)"
proof (induction il arbitrary: m)
  case Nil
  show ?case by (simp split: option.split)
next
  case (Cons kv il)
  show ?case
    by (cases kv) (simp add: Cons.IH map_of_um_insert split: option.split)
qed

lemma map_of_um_init: "map_of (um_init il) k = map_of il k"
  by (simp add: um_init_def map_of_um_insert_fold)

lemma um_modify_absent: "map_of m k = None \<Longrightarrow> um_modify m k g = m"
  by (induction m) (auto simp: um_modify_def split: if_splits)

lemma um_index_assign_absent:
  "map_of m k = None \<Longrightarrow> um_index_assign m k v = (k, v) # m"
  using um_modify_absent [of m k "\<lambda>_. v"]
  by (simp add: um_index_assign_def um_index_def um_modify_def)

text \<open>
  C2, as the code has it: the constructor inserts the pairs of the initializer list one by
  one and \<^verbatim>\<open>insert\<close> leaves a key that is already present alone, so every key is stored with
  the value of its first pair in the list (\<open>map_of\<close> takes the first pair of a key), and a
  key of no pair is absent.
\<close>

theorem defaultdict_il_first_seen:
  "um_at (base (defaultdict_il f il)) k =
     (case map_of il k of None \<Rightarrow> Inl out_of_range | Some v \<Rightarrow> Inr v)"
  by (simp add: defaultdict_il_def um_at_def map_of_um_init)

text \<open>
  C2 as stated asks for the last-seen value. With the initializer list \<open>{{'a', 1}, {'a', 2}}\<close>
  the key \<open>'a'\<close> is stored with 1, not with 2.
\<close>

theorem defaultdict_il_duplicate_counterexample:
  "um_at (base (defaultdict_il (\<lambda>w :: unit. (0 :: nat, w)) [(CHR ''a'', 1), (CHR ''a'', 2)])) (CHR ''a'') = Inr 1
   \<and> um_at (base (defaultdict_il (\<lambda>w :: unit. (0 :: nat, w)) [(CHR ''a'', 1), (CHR ''a'', 2)])) (CHR ''a'') \<noteq> Inr 2"
  by (simp add: defaultdict_il_def um_init_def um_insert_def um_at_def)

text \<open>
  C6: for a key \<open>k\<close> that is absent, \<^verbatim>\<open>operator[]\<close> calls the factory once (the value is the one
  \<open>dd_f d\<close> produces in the world \<open>w\<close>, and the world after the call is the one that single
  call leaves), stores that value under \<open>k\<close> and returns it; a second call with the same \<open>k\<close>
  returns the stored value and leaves the object and the world as they are, so the factory
  is not called again. For a key that is present the stored value is returned and nothing
  changes.
\<close>

theorem dd_index_factory_once:
  "(map_of (base d) k = None \<longrightarrow>
      (let (v, d', w') = dd_index d k w
       in v = fst (dd_f d w) \<and> w' = snd (dd_f d w)
          \<and> d' = d\<lparr>base := (k, v) # base d\<rparr>
          \<and> um_at (base d') k = Inr v
          \<and> dd_index d' k w' = (v, d', w')))
   \<and> (\<forall>v. map_of (base d) k = Some v \<longrightarrow> dd_index d k w = (v, d, w))"
  by (auto simp: dd_index_def um_at_def um_index_assign_absent split: prod.splits)

theorem dd_index_factory_once_witness:
  "map_of (base (defaultdict_il (\<lambda>n :: nat. (int n, Suc n)) [(CHR ''a'', 1)])) (CHR ''b'') = None
   \<and> dd_index (defaultdict_il (\<lambda>n :: nat. (int n, Suc n)) [(CHR ''a'', 1)]) (CHR ''b'') 5
       = (5, \<lparr>base = [(CHR ''b'', 5), (CHR ''a'', 1)], dd_f = (\<lambda>n :: nat. (int n, Suc n))\<rparr>, 6)
   \<and> dd_index \<lparr>base = [(CHR ''b'', 5), (CHR ''a'', 1)], dd_f = (\<lambda>n :: nat. (int n, Suc n))\<rparr> (CHR ''b'') 6
       = (5, \<lparr>base = [(CHR ''b'', 5), (CHR ''a'', 1)], dd_f = (\<lambda>n :: nat. (int n, Suc n))\<rparr>, 6)
   \<and> dd_index (defaultdict_il (\<lambda>n :: nat. (int n, Suc n)) [(CHR ''a'', 1)]) (CHR ''a'') 5
       = (1, defaultdict_il (\<lambda>n :: nat. (int n, Suc n)) [(CHR ''a'', 1)], 5)"
  using dd_index_factory_once [of "defaultdict_il (\<lambda>n :: nat. (int n, Suc n)) [(CHR ''a'', 1)]" "CHR ''b''" 5]
    dd_index_factory_once [of "defaultdict_il (\<lambda>n :: nat. (int n, Suc n)) [(CHR ''a'', 1)]" "CHR ''a''" 5]
  by (auto simp add: defaultdict_il_def um_init_def um_insert_def split: prod.splits)

section \<open>Properties of ChainMap\<close>

lemma layers_front: "layers cm = front cm # tl (layers cm)"
  by (cases cm) simp_all

lemma ChainMap_at_find:
  "ChainMap_at s cm k =
     (case List.find (\<lambda>a. k \<in> dom (s a)) (layers cm) of
        None \<Rightarrow> Inl out_of_range
      | Some a \<Rightarrow> Map_at (s a) k)"
  by (induction cm) (auto simp: Map_at_def domIff split: option.splits sum.splits exn.splits)

text \<open>
  C5: \<^verbatim>\<open>at(k)\<close> returns the value of \<open>k\<close> in the first layer, front to back, that has the key;
  it throws exactly when no layer has the key, and \<^verbatim>\<open>std::out_of_range\<close> is what it throws.
\<close>

theorem ChainMap_at_first_layer:
  "(\<forall>a v. List.find (\<lambda>a. k \<in> dom (s a)) (layers cm) = Some a \<and> s a k = Some v
       \<longrightarrow> ChainMap_at s cm k = Inr v)
   \<and> (ChainMap_at s cm k = Inl out_of_range) = (\<forall>a \<in> set (layers cm). s a k = None)
   \<and> (\<forall>e. ChainMap_at s cm k = Inl e \<longrightarrow> e = out_of_range)"
proof (intro conjI allI impI)
  fix a v
  assume "List.find (\<lambda>a. k \<in> dom (s a)) (layers cm) = Some a \<and> s a k = Some v"
  then show "ChainMap_at s cm k = Inr v"
    by (simp add: ChainMap_at_find Map_at_def)
next
  show "(ChainMap_at s cm k = Inl out_of_range) = (\<forall>a \<in> set (layers cm). s a k = None)"
    by (auto simp: ChainMap_at_find Map_at_def find_None_iff find_Some_iff domIff split: option.splits)
next
  fix e :: exn
  show "e = out_of_range" by (cases e)
qed

theorem ChainMap_at_first_layer_witness:
  "List.find (\<lambda>a. CHR ''c'' \<in> dom (((\<lambda>_. Map.empty)(0 := [CHR ''b'' \<mapsto> 3 :: int, CHR ''c'' \<mapsto> 4], Suc 0 := [CHR ''c'' \<mapsto> 5, CHR ''d'' \<mapsto> 6])) a))
      (layers (ChainMapN 0 (ChainMap1 (Suc 0)))) = Some 0
   \<and> ChainMap_at ((\<lambda>_. Map.empty)(0 := [CHR ''b'' \<mapsto> 3 :: int, CHR ''c'' \<mapsto> 4], Suc 0 := [CHR ''c'' \<mapsto> 5, CHR ''d'' \<mapsto> 6]))
        (ChainMapN 0 (ChainMap1 (Suc 0))) (CHR ''c'') = Inr 4
   \<and> ChainMap_at ((\<lambda>_. Map.empty)(0 := [CHR ''b'' \<mapsto> 3 :: int, CHR ''c'' \<mapsto> 4], Suc 0 := [CHR ''c'' \<mapsto> 5, CHR ''d'' \<mapsto> 6]))
        (ChainMapN 0 (ChainMap1 (Suc 0))) (CHR ''d'') = Inr 6
   \<and> ChainMap_at ((\<lambda>_. Map.empty)(0 := [CHR ''b'' \<mapsto> 3 :: int, CHR ''c'' \<mapsto> 4], Suc 0 := [CHR ''c'' \<mapsto> 5, CHR ''d'' \<mapsto> 6]))
        (ChainMapN 0 (ChainMap1 (Suc 0))) (CHR ''a'') = Inl out_of_range"
  using ChainMap_at_first_layer [where s = "(\<lambda>_. Map.empty)(0 := [CHR ''b'' \<mapsto> 3 :: int, CHR ''c'' \<mapsto> 4], Suc 0 := [CHR ''c'' \<mapsto> 5, CHR ''d'' \<mapsto> 6])" and k = "CHR ''c''" and cm = "ChainMapN 0 (ChainMap1 (Suc 0))"]
    ChainMap_at_first_layer [where s = "(\<lambda>_. Map.empty)(0 := [CHR ''b'' \<mapsto> 3 :: int, CHR ''c'' \<mapsto> 4], Suc 0 := [CHR ''c'' \<mapsto> 5, CHR ''d'' \<mapsto> 6])" and k = "CHR ''d''" and cm = "ChainMapN 0 (ChainMap1 (Suc 0))"]
    ChainMap_at_first_layer [where s = "(\<lambda>_. Map.empty)(0 := [CHR ''b'' \<mapsto> 3 :: int, CHR ''c'' \<mapsto> 4], Suc 0 := [CHR ''c'' \<mapsto> 5, CHR ''d'' \<mapsto> 6])" and k = "CHR ''a''" and cm = "ChainMapN 0 (ChainMap1 (Suc 0))"]
  by simp

text \<open>
  C4: \<^verbatim>\<open>operator[]\<close> returns a reference to the slot of \<open>k\<close> in the front map, and (i) with \<open>k\<close> in
  the front map the store is left as it is and the value is the front map's own, whatever
  the deeper layers hold; (ii) with \<open>k\<close> absent from the front map and \<open>a\<close> the first deeper
  layer that has it, the value of \<open>k\<close> in \<open>a\<close> is stored in the front map under \<open>k\<close>, and only
  the front map changes; (iii) with \<open>k\<close> in no layer, the default \<open>d\<close> of the front map type
  is stored in the front map under \<open>k\<close>.
\<close>

theorem ChainMap_index_cases:
  "(\<forall>v. s (front cm) k = Some v \<longrightarrow>
       ChainMap_index d s cm k = ((front cm, k), s)
       \<and> deref s (front cm, k) = Some v)
   \<and> (\<forall>a v. s (front cm) k = None
         \<and> List.find (\<lambda>a. k \<in> dom (s a)) (tl (layers cm)) = Some a \<and> s a k = Some v \<longrightarrow>
       ChainMap_index d s cm k = ((front cm, k), s(front cm := (s (front cm))(k \<mapsto> v)))
       \<and> deref (snd (ChainMap_index d s cm k)) (fst (ChainMap_index d s cm k)) = Some v)
   \<and> ((\<forall>a \<in> set (layers cm). s a k = None) \<longrightarrow>
       ChainMap_index d s cm k = ((front cm, k), s(front cm := (s (front cm))(k \<mapsto> d)))
       \<and> deref (snd (ChainMap_index d s cm k)) (fst (ChainMap_index d s cm k)) = Some d)"
proof (cases cm)
  case (ChainMap1 a)
  then show ?thesis
    by (auto simp: Map_index_def deref_def fun_upd_idem split: option.splits)
next
  case (ChainMapN a b)
  have at: "ChainMap_at s cm k =
     (case List.find (\<lambda>a. k \<in> dom (s a)) (layers cm) of
        None \<Rightarrow> Inl out_of_range
      | Some a \<Rightarrow> Map_at (s a) k)"
    by (rule ChainMap_at_find)
  have none: "(\<forall>a \<in> set (layers cm). s a k = None) \<Longrightarrow> ChainMap_at s cm k = Inl out_of_range"
    by (auto simp: at find_None_iff find_Some_iff domIff split: option.splits)
  show ?thesis
    unfolding ChainMapN
    apply (intro conjI allI impI)
    subgoal by (simp add: Map_at_def Map_index_def fun_upd_idem)
    subgoal by (simp add: Map_at_def deref_def)
    subgoal for a' v by (simp add: ChainMap_at_find Map_at_def Map_index_def domIff)
    subgoal for a' v by (simp add: ChainMap_at_find Map_at_def Map_index_def deref_def domIff)
    subgoal using none by (simp add: ChainMapN Map_index_def)
    subgoal using none by (simp add: ChainMapN Map_index_def deref_def)
    done
qed

theorem ChainMap_index_cases_witness:
  "main_maps (front main_cmp) (CHR ''b'') = Some 3
   \<and> ChainMap_index 0 main_maps main_cmp (CHR ''b'') = ((2, CHR ''b''), main_maps)
   \<and> main_maps (front main_cmp) (CHR ''d'') = None
   \<and> List.find (\<lambda>a. CHR ''d'' \<in> dom (main_maps a)) (tl (layers main_cmp)) = Some 3
   \<and> main_maps 3 (CHR ''d'') = Some 6
   \<and> ChainMap_index 0 main_maps main_cmp (CHR ''d'')
       = ((2, CHR ''d''), main_maps(2 := [CHR ''b'' \<mapsto> 3, CHR ''c'' \<mapsto> 4, CHR ''d'' \<mapsto> 6]))
   \<and> \<not> (\<exists>a \<in> set (layers main_cmp). main_maps a (CHR ''a'') \<noteq> None)
   \<and> ChainMap_index 0 main_maps main_cmp (CHR ''a'')
       = ((2, CHR ''a''), main_maps(2 := [CHR ''b'' \<mapsto> 3, CHR ''c'' \<mapsto> 4, CHR ''a'' \<mapsto> 0]))"
  using ChainMap_index_cases [where s = main_maps and cm = main_cmp and k = "CHR ''b''" and d = 0]
    ChainMap_index_cases [where s = main_maps and cm = main_cmp and k = "CHR ''d''" and d = 0]
    ChainMap_index_cases [where s = main_maps and cm = main_cmp and k = "CHR ''a''" and d = 0]
  by (simp add: main_maps_def main_cmp_def)

lemma one_map_into_find:
  "one_map_into s cm one k =
     (case one k of
        Some v \<Rightarrow> Some v
      | None \<Rightarrow> (case List.find (\<lambda>a. k \<in> dom (s a)) (layers cm) of None \<Rightarrow> None | Some a \<Rightarrow> s a k))"
  by (induction cm arbitrary: one) (auto simp: Map_insert_range_def domIff split: option.splits)

lemma one_map_find:
  "one_map s cm k =
     (case List.find (\<lambda>a. k \<in> dom (s a)) (layers cm) of None \<Rightarrow> None | Some a \<Rightarrow> s a k)"
proof (cases cm)
  case (ChainMap1 a)
  then show ?thesis by (auto split: option.splits)
next
  case (ChainMapN a b)
  show ?thesis unfolding ChainMapN one_map.simps
    by (auto simp add: one_map_into_find Map_insert_range_def domIff split: option.splits)
qed

lemma dom_one_map: "dom (one_map s cm) = (\<Union>a \<in> set (layers cm). dom (s a))"
proof -
  have "k \<in> dom (one_map s cm) \<longleftrightarrow> (\<exists>a \<in> set (layers cm). k \<in> dom (s a))" for k
  proof (cases "List.find (\<lambda>a. k \<in> dom (s a)) (layers cm)")
    case None
    then have "one_map s cm k = None" by (simp add: one_map_find)
    moreover from None have "\<not> (\<exists>a \<in> set (layers cm). k \<in> dom (s a))"
      by (simp add: find_None_iff)
    ultimately show ?thesis by (metis domIff)
  next
    case (Some a)
    then have "a \<in> set (layers cm) \<and> k \<in> dom (s a)"
      by (metis find_Some_iff nth_mem)
    moreover from Some have "one_map s cm k = s a k" by (simp add: one_map_find)
    ultimately show ?thesis by (metis domIff)
  qed
  then show ?thesis by blast
qed

lemma ChainMap_index_frame: "r \<noteq> front cm \<Longrightarrow> snd (ChainMap_index d s cm k) r = s r"
  by (cases cm) (auto split: sum.splits exn.splits)

lemma front_in_layers: "front cm \<in> set (layers cm)"
  by (cases cm) simp_all

lemma one_map_fresh: "r \<notin> set (layers cm) \<Longrightarrow> one_map (s(r := m)) cm = one_map s cm"
proof
  fix k
  assume fresh: "r \<notin> set (layers cm)"
  have "List.find (\<lambda>a. k \<in> dom ((s(r := m)) a)) (layers cm) = List.find (\<lambda>a. k \<in> dom (s a)) (layers cm)"
    using fresh by (intro find_cong) auto
  moreover have "\<And>a. List.find (\<lambda>a. k \<in> dom (s a)) (layers cm) = Some a \<Longrightarrow> a \<noteq> r"
    using fresh by (metis find_Some_iff nth_mem)
  ultimately show "one_map (s(r := m)) cm k = one_map s cm k"
    using one_map_find [of "s(r := m)" cm k] one_map_find [of s cm k]
    by (auto split: option.splits)
qed

text \<open>
  C9: \<^verbatim>\<open>one_map()\<close> maps every key to its value in the front-most layer that has the key, and
  its keys are the keys of all layers together. The map is returned by value: when the
  caller keeps it at an address \<open>r\<close> that is no layer of the ChainMap, a write to \<open>r\<close> changes
  nothing the ChainMap reads, and a write through the ChainMap leaves the map at \<open>r\<close> alone.
\<close>

theorem one_map_front_most:
  "one_map s cm k =
     (case List.find (\<lambda>a. k \<in> dom (s a)) (layers cm) of None \<Rightarrow> None | Some a \<Rightarrow> s a k)
   \<and> dom (one_map s cm) = (\<Union>a \<in> set (layers cm). dom (s a))
   \<and> (\<forall>r. r \<notin> set (layers cm) \<longrightarrow>
        (\<forall>m. one_map (s(r := m)) cm = one_map s cm)
        \<and> snd (ChainMap_index d (s(r := one_map s cm)) cm k') r = one_map s cm)"
proof (intro conjI allI impI)
  show "one_map s cm k =
     (case List.find (\<lambda>a. k \<in> dom (s a)) (layers cm) of None \<Rightarrow> None | Some a \<Rightarrow> s a k)"
    by (rule one_map_find)
  show "dom (one_map s cm) = (\<Union>a \<in> set (layers cm). dom (s a))"
    by (rule dom_one_map)
next
  fix r m
  assume "r \<notin> set (layers cm)"
  then show "one_map (s(r := m)) cm = one_map s cm"
    by (rule one_map_fresh)
next
  fix r
  assume "r \<notin> set (layers cm)"
  then have "r \<noteq> front cm"
    using front_in_layers [of cm] by auto
  then show "snd (ChainMap_index d (s(r := one_map s cm)) cm k') r = one_map s cm"
    by (simp add: ChainMap_index_frame)
qed

theorem one_map_front_most_witness:
  "one_map main_maps main_n_cmp (CHR ''a'') = Some 1
   \<and> one_map main_maps main_n_cmp (CHR ''b'') = Some 2
   \<and> one_map main_maps main_n_cmp (CHR ''c'') = Some 4
   \<and> one_map main_maps main_n_cmp (CHR ''d'') = Some 6
   \<and> dom (one_map main_maps main_n_cmp) = {CHR ''a'', CHR ''b'', CHR ''c'', CHR ''d''}
   \<and> 4 \<notin> set (layers main_n_cmp)
   \<and> snd (ChainMap_index 0 (main_maps(4 := one_map main_maps main_n_cmp)) main_n_cmp (CHR ''c'')) 4
       = one_map main_maps main_n_cmp"
  using one_map_front_most [where s = main_maps and cm = main_n_cmp and k = "CHR ''a''" and d = 0 and k' = "CHR ''c''"]
    one_map_front_most [where s = main_maps and cm = main_n_cmp and k = "CHR ''b''" and d = 0 and k' = "CHR ''c''"]
    one_map_front_most [where s = main_maps and cm = main_n_cmp and k = "CHR ''c''" and d = 0 and k' = "CHR ''c''"]
    one_map_front_most [where s = main_maps and cm = main_n_cmp and k = "CHR ''d''" and d = 0 and k' = "CHR ''c''"]
  by (auto simp add: main_maps_def main_n_cmp_def main_cmp_def new_child_def)

section \<open>Properties of Counter\<close>

subsection \<open>Lookup\<close>

lemma main_ct_eq: "main_ct = [(CHR ''b'', 1), (CHR ''a'', 1)]"
  by (simp add: main_ct_def Counter_il_def um_init_def um_insert_def)





subsection \<open>+= and -=\<close>

lemma map_of_um_modify:
  "map_of (um_modify m t g) k = (if k = t then map_option g (map_of m t) else map_of m k)"
  by (induction m) (auto simp: um_modify_def)

lemma count0_Counter_apply:
  "count0 (Counter_apply g c t) k = (if k = t then g (count0 c t) else count0 c k)"
  by (auto simp: Counter_apply_def count0_def map_of_um_modify um_index_def)

lemma count0_fold_apply:
  "count0 (fold (\<lambda>t m. Counter_apply (\<lambda>x. op x (snd t)) m (fst t)) d c) k =
     fold (\<lambda>n x. op x n) (map snd (filter (\<lambda>t. fst t = k) d)) (count0 c k)"
  by (induction d arbitrary: c) (simp_all add: count0_Counter_apply)

lemma fold_plus: "fold (\<lambda>n x. x + n) ns (x :: c_int) = x + sum_list ns"
  by (induction ns arbitrary: x) (simp_all add: add.assoc)

lemma fold_minus: "fold (\<lambda>n x. x - n) ns (x :: c_int) = x - sum_list ns"
  by (induction ns arbitrary: x) (simp_all add: algebra_simps)

lemma assign_loop_distinct:
  "this \<noteq> c \<Longrightarrow>
   assign_loop op s this c i =
     s(this := fold (\<lambda>t m. Counter_apply (\<lambda>x. op x (snd t)) m (fst t)) (drop i (s c)) (s this))"
proof (induction op s this c i rule: assign_loop.induct)
  case (1 op s this c i)
  show ?case
  proof (cases "entry_at (s c) i")
    case None
    then have "drop i (s c) = []" by (simp add: entry_at_def split: if_splits)
    with None show ?thesis by (simp add: assign_loop.simps [of op s this c i])
  next
    case (Some t)
    then have i: "i < length (s c)" and t: "t = s c ! i"
      by (auto simp: entry_at_def split: if_splits)
    from i t have d: "drop i (s c) = t # drop (Suc i) (s c)"
      by (simp add: Cons_nth_drop_Suc)
    let ?f = "\<lambda>t m. Counter_apply (\<lambda>x. op x (snd t)) m (fst t)"
    let ?s' = "s(this := ?f t (s this))"
    have "assign_loop op s this c i = assign_loop op ?s' this c (Suc i)"
      using Some by (simp add: assign_loop.simps [of op s this c i])
    also have "\<dots> = ?s'(this := fold ?f (drop (Suc i) (?s' c)) (?s' this))"
      by (rule "1.IH" [OF Some "1.prems"])
    also have "\<dots> = s(this := fold ?f (drop (Suc i) (s c)) (?f t (s this)))"
      using "1.prems" by simp
    also have "\<dots> = s(this := fold ?f (drop i (s c)) (s this))"
      by (simp add: d)
    finally show ?thesis .
  qed
qed

text \<open>
  C8, as the code has it: for a Counter and an operand that are two objects, \<^verbatim>\<open>+=\<close> and then
  \<^verbatim>\<open>-=\<close> with the same operand leave every element with the count it had (an absent element
  counting 0, counts wrapping around as \<^verbatim>\<open>int\<close> does), and leave the operand as it was.
\<close>

theorem add_then_sub_roundtrip:
  "this \<noteq> c \<Longrightarrow>
   count0 (sub_assign (add_assign s this c) this c this) k = count0 (s this) k
   \<and> sub_assign (add_assign s this c) this c c = s c"
  by (simp add: add_assign_def sub_assign_def assign_loop_distinct count0_fold_apply fold_plus fold_minus)

theorem add_then_sub_roundtrip_witness:
  "(1 :: addr) \<noteq> 2
   \<and> add_assign main_cts 1 2 1 = [(CHR ''c'', 2), (CHR ''b'', 2), (CHR ''a'', 1)]
   \<and> count0 (sub_assign (add_assign main_cts 1 2) 1 2 1) (CHR ''c'') = count0 (main_cts 1) (CHR ''c'')
   \<and> count0 (main_cts 1) (CHR ''c'') = 0
   \<and> count0 (sub_assign (add_assign main_cts 1 2) 1 2 1) (CHR ''b'') = 1"
  using add_then_sub_roundtrip [of 1 2 main_cts "CHR ''c''"] add_then_sub_roundtrip [of 1 2 main_cts "CHR ''b''"]
  by (simp add: main_cts_def main_ct_eq count0_def add_assign_def assign_loop.simps entry_at_def
      Counter_apply_def um_index_def um_modify_def Counter_il_def um_init_def um_insert_def)

text \<open>
  C8 as stated is about every operand. With the Counter as its own operand, \<^verbatim>\<open>ct += ct\<close>
  doubles the count of \<open>'a'\<close> from 1 to 2, and \<^verbatim>\<open>ct -= ct\<close> then leaves 0.
\<close>

theorem add_then_sub_self_counterexample:
  "count0 (main_cts 1) (CHR ''a'') = 1
   \<and> count0 (add_assign main_cts 1 1 1) (CHR ''a'') = 2
   \<and> count0 (sub_assign (add_assign main_cts 1 1) 1 1 1) (CHR ''a'') = 0"
  by (simp add: main_cts_def main_ct_eq count0_def add_assign_def sub_assign_def assign_loop.simps entry_at_def
      Counter_apply_def um_index_def um_modify_def)

subsection \<open>most_common\<close>

lemma cmp_iff: "\<not> cmp a b \<longleftrightarrow> sint (snd b) \<le> sint (snd a)"
  by (auto simp: cmp_def)

lemma is_heap_le_first:
  "is_heap cmp xs \<Longrightarrow> i < length xs \<Longrightarrow> sint (snd (xs ! i)) \<le> sint (snd (xs ! 0))"
proof (induction i rule: less_induct)
  case (less i)
  show ?case
  proof (cases "i = 0")
    case True
    then show ?thesis by simp
  next
    case False
    let ?p = "(i - 1) div 2"
    from False have p: "?p < i" by simp
    from False less.prems have "\<not> cmp (xs ! ?p) (xs ! i)"
      by (simp add: is_heap_def)
    then have "sint (snd (xs ! i)) \<le> sint (snd (xs ! ?p))"
      by (simp add: cmp_iff)
    also have "\<dots> \<le> sint (snd (xs ! 0))"
      using less.IH [OF p less.prems(1)] p less.prems(2) by simp
    finally show ?thesis .
  qed
qed

lemma is_heap_hd_max:
  assumes "is_heap cmp xs" and "x \<in> set xs"
  shows "sint (snd x) \<le> sint (snd (hd xs))"
proof -
  from assms(2) obtain i where "i < length xs" and "xs ! i = x"
    by (auto simp: in_set_conv_nth)
  with is_heap_le_first [OF assms(1), of i] show ?thesis
    by (cases xs) auto
qed

lemma set_ref_insert: "set (ref_insert lt x ys) = insert x (set ys)"
  by (induction ys) auto

lemma mset_ref_insert: "mset (ref_insert lt x ys) = add_mset x (mset ys)"
  by (induction ys) auto

lemma descending_ref_insert: "descending ys \<Longrightarrow> descending (ref_insert cmp x ys)"
  by (induction ys) (auto simp: descending_def set_ref_insert cmp_def)

lemma mset_ref_make_heap: "mset (ref_make_heap lt xs) = mset xs"
  by (induction xs) (simp_all add: ref_make_heap_def mset_ref_insert)

lemma descending_ref_make_heap: "descending (ref_make_heap cmp xs)"
proof (induction xs)
  case Nil
  show ?case by (simp add: ref_make_heap_def descending_def)
next
  case (Cons x xs)
  then show ?case by (simp add: ref_make_heap_def descending_ref_insert)
qed

lemma descending_is_heap: "descending xs \<Longrightarrow> is_heap cmp xs"
proof -
  assume d: "descending xs"
  have "\<not> cmp (xs ! ((i - 1) div 2)) (xs ! i)" if "1 \<le> i" "i < length xs" for i
  proof -
    from that have "(i - 1) div 2 < i" by simp
    with d that show ?thesis
      by (simp add: descending_def sorted_wrt_iff_nth_less cmp_iff)
  qed
  then show ?thesis by (simp add: is_heap_def)
qed

lemma ref_heap_contract: "heap_contract ref_make_heap ref_pop_heap"
  unfolding heap_contract_def
proof (intro conjI allI impI)
  fix xs :: "'a entry list"
  show "is_heap cmp (ref_make_heap cmp xs)"
    by (simp add: descending_is_heap descending_ref_make_heap)
  show "mset (ref_make_heap cmp xs) = mset xs"
    by (rule mset_ref_make_heap)
next
  fix xs :: "'a entry list"
  assume "xs \<noteq> [] \<and> is_heap cmp xs"
  then obtain x r where xs: "xs = x # r" by (cases xs) auto
  show "last (ref_pop_heap cmp xs) = hd xs" by (simp add: xs ref_pop_heap_def)
  show "is_heap cmp (butlast (ref_pop_heap cmp xs))"
    by (simp add: xs ref_pop_heap_def descending_is_heap descending_ref_make_heap)
  show "mset (ref_pop_heap cmp xs) = mset xs"
    by (simp add: xs ref_pop_heap_def mset_ref_make_heap)
qed

lemma popped_length: "popped c i v \<Longrightarrow> length v = length c"
  by (auto simp: popped_def dest: mset_eq_length)

lemma popped_start:
  "heap_contract make_heap pop_heap \<Longrightarrow> popped c 0 (make_heap cmp c)"
proof -
  assume h: "heap_contract make_heap pop_heap"
  then have m: "mset (make_heap cmp c) = mset c" and hp: "is_heap cmp (make_heap cmp c)"
    by (simp_all add: heap_contract_def)
  from m have "length (make_heap cmp c) = length c" by (rule mset_eq_length)
  with m hp show ?thesis by (simp add: popped_def)
qed

lemma popped_step:
  assumes h: "heap_contract make_heap pop_heap" and p: "popped c i v" and i: "i < length c"
  shows "popped c (Suc i) (pop_heap cmp (take (length v - i) v) @ drop (length v - i) v)"
proof -
  let ?N = "length c"
  let ?p = "take (?N - i) v" and ?s = "drop (?N - i) v"
  let ?p' = "pop_heap cmp ?p"
  have len: "length v = ?N" using p by (rule popped_length)
  from p have hp: "is_heap cmp ?p"
    and srt: "sorted_wrt (\<lambda>a b. sint (snd a) \<le> sint (snd b)) ?s"
    and le: "\<forall>x \<in> set ?p. \<forall>y \<in> set ?s. sint (snd x) \<le> sint (snd y)"
    and ms: "mset v = mset c"
    by (simp_all add: popped_def)
  from i len have ne: "?p \<noteq> []" by auto
  from h ne hp have last: "last ?p' = hd ?p" and hb: "is_heap cmp (butlast ?p')"
    and mp: "mset ?p' = mset ?p"
    by (simp_all add: heap_contract_def)
  from mp have lp: "length ?p' = length ?p" by (rule mset_eq_length)
  with i len have lp': "length ?p' = ?N - i" by simp
  from mp have sp: "set ?p' = set ?p" by (rule mset_eq_setD)
  from lp' i have ne': "?p' \<noteq> []" by auto
  then have split: "?p' = butlast ?p' @ [last ?p']" by simp
  have tk: "take (?N - Suc i) (?p' @ ?s) = butlast ?p'"
    using lp' i by (simp add: butlast_conv_take)
  have dr: "drop (?N - Suc i) (?p' @ ?s) = last ?p' # ?s"
  proof -
    have "drop (?N - Suc i) ?p' = [last ?p']"
      using lp' i ne' by (metis split append_eq_conv_conj length_butlast Suc_diff_Suc diff_Suc_1 length_append_singleton)
    with lp' i show ?thesis by simp
  qed
  define m where "m = hd ?p"
  have m_in: "m \<in> set ?p" unfolding m_def using ne by (rule hd_in_set)
  have mx: "\<forall>x \<in> set ?p. sint (snd x) \<le> sint (snd m)"
    unfolding m_def using is_heap_hd_max [OF hp] by blast
  have dr': "drop (?N - Suc i) (?p' @ ?s) = m # ?s"
    unfolding m_def using dr last by simp
  have "mset (?p' @ ?s) = mset c"
    using mp ms by (metis append_take_drop_id mset_append)
  moreover have "is_heap cmp (take (?N - Suc i) (?p' @ ?s))"
    using hb by (simp only: tk)
  moreover have "sorted_wrt (\<lambda>a b. sint (snd a) \<le> sint (snd b)) (drop (?N - Suc i) (?p' @ ?s))"
    unfolding dr' using srt le m_in by simp
  moreover have "\<forall>x \<in> set (take (?N - Suc i) (?p' @ ?s)). \<forall>y \<in> set (drop (?N - Suc i) (?p' @ ?s)).
         sint (snd x) \<le> sint (snd y)"
    unfolding dr' tk
  proof (intro ballI)
    fix x y
    assume "x \<in> set (butlast ?p')" and y: "y \<in> set (m # ?s)"
    then have x: "x \<in> set ?p" using sp by (auto dest: in_set_butlastD)
    from y have "y = m \<or> y \<in> set ?s" by simp
    then show "sint (snd x) \<le> sint (snd y)"
      using x mx le by auto
  qed
  ultimately show ?thesis
    using i unfolding popped_def len by simp
qed


lemma pop_loop_popped:
  assumes h: "heap_contract make_heap pop_heap"
  shows "popped c i v \<Longrightarrow> int i \<le> n \<Longrightarrow> n \<le> int (length c) \<Longrightarrow>
    \<exists>v'. pop_loop (pop_heap cmp) v i n = Some v' \<and> popped c (nat n) v'"
proof (induction "nat n - i" arbitrary: i v)
  case 0
  then have "\<not> int i < n" and "nat n = i" by simp_all
  then have "pop_loop (pop_heap cmp) v i n = Some v \<and> popped c (nat n) v"
    using "0.prems"(1) by (simp add: pop_loop.simps [of _ v i n])
  then show ?case by blast
next
  case (Suc d)
  then have lt: "int i < n" and i: "i < length c" by simp_all
  have len: "length v = length c" using Suc.prems(1) by (rule popped_length)
  let ?v1 = "pop_heap cmp (take (length v - i) v) @ drop (length v - i) v"
  have p1: "popped c (Suc i) ?v1"
    using h Suc.prems(1) i by (rule popped_step)
  have "d = nat n - Suc i" using Suc.hyps(2) by simp
  from Suc.hyps(1) [OF this p1] lt Suc.prems(3)
  obtain v' where "pop_loop (pop_heap cmp) ?v1 (Suc i) n = Some v'" and "popped c (nat n) v'"
    by auto
  with lt i len show ?case
    by (simp add: pop_loop.simps [of _ v i n])
qed

lemma pop_loop_overrun:
  assumes h: "heap_contract make_heap pop_heap"
  shows "popped c i v \<Longrightarrow> int (length c) < n \<Longrightarrow> pop_loop (pop_heap cmp) v i n = None"
proof (induction "length c - i" arbitrary: i v)
  case 0
  have len: "length v = length c" using "0.prems"(1) by (rule popped_length)
  from "0.prems"(1) have "i \<le> length c" by (simp add: popped_def)
  with 0 len show ?case by (simp add: pop_loop.simps [of _ v i n])
next
  case (Suc d)
  then have i: "i < length c" by simp
  have len: "length v = length c" using Suc.prems(1) by (rule popped_length)
  let ?v1 = "pop_heap cmp (take (length v - i) v) @ drop (length v - i) v"
  have p1: "popped c (Suc i) ?v1"
    using h Suc.prems(1) i by (rule popped_step)
  have "d = length c - Suc i" using Suc.hyps(2) by simp
  from Suc.hyps(1) [OF this p1 Suc.prems(2)] i len Suc.prems(2) show ?case
    by (simp add: pop_loop.simps [of _ v i n])
qed

lemma most_common_overrun:
  assumes "heap_contract make_heap pop_heap" and "int (length c) < n"
  shows "most_common make_heap pop_heap c n = None"
proof -
  from assms(2) have "n \<noteq> 0" by auto
  moreover have "pop_loop (pop_heap cmp) (make_heap cmp c) 0 n = None"
    using assms(1) popped_start [OF assms(1)] assms(2) by (rule pop_loop_overrun)
  ultimately show ?thesis by (simp add: most_common_def)
qed

lemma most_common_negative: "n < 0 \<Longrightarrow> most_common make_heap pop_heap c n = None"
  by (simp add: most_common_def pop_loop.simps [of _ _ 0 n])

lemma most_common_in_range:
  assumes h: "heap_contract make_heap pop_heap" and n: "0 \<le> n" "n \<le> int (length c)"
  defines "k \<equiv> (if n = 0 then length c else nat n)"
  shows "\<exists>v. popped c k v \<and> most_common make_heap pop_heap c n = Some (rev (drop (length c - k) v), c)"
proof -
  let ?n = "if n = 0 then int (length c) else n"
  have k: "k = nat ?n" by (simp add: k_def)
  have "int 0 \<le> ?n" and "?n \<le> int (length c)" using n by auto
  from pop_loop_popped [OF h popped_start [OF h] this]
  obtain v where l: "pop_loop (pop_heap cmp) (make_heap cmp c) 0 ?n = Some v" and p: "popped c k v"
    unfolding k by blast
  have len: "length v = length c" using p by (rule popped_length)
  have "most_common make_heap pop_heap c n = Some (rev (drop (length c - k) v), c)"
    using l n len by (simp add: most_common_def Let_def k)
  with p show ?thesis by blast
qed

lemma main_ct_updated_eq:
  "main_ct_updated = [(CHR ''d'', 1), (CHR ''c'', 2), (CHR ''b'', 2), (CHR ''a'', 3)]"
  by (simp add: main_ct_updated_def update_def main_cts_def main_ct_eq add_assign_def assign_loop.simps
      entry_at_def Counter_apply_def um_index_def um_modify_def Counter_il_def um_init_def um_insert_def)

lemma most_common_sorted:
  assumes h: "heap_contract make_heap pop_heap" and n: "0 \<le> n" "n \<le> int (length c)"
  shows "\<exists>r. most_common make_heap pop_heap c n = Some (r, c)
    \<and> length r = (if n = 0 then length c else nat n)
    \<and> sorted_wrt (\<lambda>a b. sint (snd b) \<le> sint (snd a)) r
    \<and> mset r \<subseteq># mset c
    \<and> (\<forall>x \<in> set r. \<forall>y \<in># mset c - mset r. sint (snd y) \<le> sint (snd x))
    \<and> (n = 0 \<or> n = int (length c) \<longrightarrow> mset r = mset c)"
proof -
  define k where "k = (if n = 0 then length c else nat n)"
  from most_common_in_range [OF h n] obtain v where p: "popped c k v"
    and m: "most_common make_heap pop_heap c n = Some (rev (drop (length c - k) v), c)"
    unfolding k_def by blast
  let ?r = "rev (drop (length c - k) v)"
  have len: "length v = length c" using p by (rule popped_length)
  have kN: "k \<le> length c" using p by (simp add: popped_def)
  have mv: "mset v = mset (take (length c - k) v) + mset (drop (length c - k) v)"
    by (metis append_take_drop_id mset_append)
  have mc: "mset c = mset (take (length c - k) v) + mset ?r"
    using p mv by (simp add: popped_def)
  have "length ?r = k" using len kN by simp
  moreover have "sorted_wrt (\<lambda>a b. sint (snd b) \<le> sint (snd a)) ?r"
    using p by (simp add: popped_def sorted_wrt_rev)
  moreover have "mset ?r \<subseteq># mset c" by (simp add: mc)
  moreover have "\<forall>x \<in> set ?r. \<forall>y \<in># mset c - mset ?r. sint (snd y) \<le> sint (snd x)"
    using p by (simp add: mc popped_def)
  moreover have "mset ?r = mset c" if "n = 0 \<or> n = int (length c)"
  proof -
    from that have "k = length c" by (auto simp: k_def)
    then show ?thesis using p by (simp add: popped_def)
  qed
  ultimately show ?thesis using m unfolding k_def by blast
qed

text \<open>
  C10: a call of \<^verbatim>\<open>most_common(n)\<close> that returns leaves the Counter as it was, for every \<open>n\<close>;
  and with \<open>n\<close> from 0 to the number of entries the call does return.
\<close>

theorem most_common_frame:
  "(\<forall>r c'. most_common make_heap pop_heap c n = Some (r, c') \<longrightarrow> c' = c)
   \<and> (heap_contract make_heap pop_heap \<and> 0 \<le> n \<and> n \<le> int (length c) \<longrightarrow>
        (\<exists>r. most_common make_heap pop_heap c n = Some (r, c)))"
proof (intro conjI allI impI)
  fix r c'
  assume "most_common make_heap pop_heap c n = Some (r, c')"
  then show "c' = c"
    by (auto simp: most_common_def Let_def split: option.splits if_splits)
next
  assume "heap_contract make_heap pop_heap \<and> 0 \<le> n \<and> n \<le> int (length c)"
  then show "\<exists>r. most_common make_heap pop_heap c n = Some (r, c)"
    using most_common_in_range [of make_heap pop_heap n c] by blast
qed

lemma most_common_main_1:
  "most_common ref_make_heap ref_pop_heap main_ct_updated 1 = Some ([(CHR ''a'', 3)], main_ct_updated)"
  by (simp add: main_ct_updated_eq most_common_def pop_loop.simps ref_make_heap_def ref_pop_heap_def cmp_def)

theorem most_common_frame_witness:
  "heap_contract ref_make_heap (ref_pop_heap :: (char entry \<Rightarrow> char entry \<Rightarrow> bool) \<Rightarrow> char entry list \<Rightarrow> char entry list)
   \<and> (0 :: int) \<le> 1 \<and> 1 \<le> int (length main_ct_updated)
   \<and> most_common ref_make_heap ref_pop_heap main_ct_updated 1 = Some ([(CHR ''a'', 3)], main_ct_updated)"
  using most_common_frame [of ref_make_heap ref_pop_heap main_ct_updated 1] ref_heap_contract [where 'a = char]
    most_common_main_1
  by (simp add: main_ct_updated_eq)

text \<open>
  C1 at an \<open>n\<close> above the number of entries: the loop reaches \<^verbatim>\<open>std::pop_heap\<close> on an empty
  range, and the call has no defined result. (For \<open>n\<close> from 0 to the number of entries,
  \<open>most_common_sorted\<close> gives the order and the entries returned.)
\<close>

theorem most_common_overrun_undefined:
  "heap_contract make_heap pop_heap \<Longrightarrow> int (length c) < n \<Longrightarrow>
     most_common make_heap pop_heap c n = None"
  by (rule most_common_overrun)

theorem most_common_overrun_undefined_witness:
  "heap_contract ref_make_heap (ref_pop_heap :: (char entry \<Rightarrow> char entry \<Rightarrow> bool) \<Rightarrow> char entry list \<Rightarrow> char entry list)
   \<and> int (length main_ct_updated) < 5
   \<and> most_common ref_make_heap ref_pop_heap main_ct_updated 5 = None"
  using most_common_overrun_undefined [of ref_make_heap ref_pop_heap main_ct_updated 5] ref_heap_contract [where 'a = char]
  by (simp add: main_ct_updated_eq)

subsection \<open>elements()\<close>

text \<open>The keys of a map the program builds are distinct.\<close>

lemma distinct_um_insert: "distinct (map fst m) \<Longrightarrow> distinct (map fst (um_insert m kv))"
  by (auto simp: um_insert_def map_of_eq_None_iff)

lemma distinct_um_fold:
  "distinct (map fst m) \<Longrightarrow> distinct (map fst (fold (\<lambda>kv m. um_insert m kv) il m))"
  by (induction il arbitrary: m) (simp_all add: distinct_um_insert)

lemma distinct_um_init: "distinct (map fst (um_init il))"
  by (simp add: um_init_def distinct_um_fold)

lemma distinct_um_index: "distinct (map fst m) \<Longrightarrow> distinct (map fst (um_index d m k))"
  by (auto simp: um_index_def map_of_eq_None_iff)

lemma map_fst_um_modify: "map fst (um_modify m k g) = map fst m"
  by (induction m) (auto simp: um_modify_def)

lemma distinct_Counter_apply:
  "distinct (map fst c) \<Longrightarrow> distinct (map fst (Counter_apply g c t))"
  by (simp add: Counter_apply_def map_fst_um_modify distinct_um_index)

lemma sint_dec: "0 < sint (n :: c_int) \<Longrightarrow> sint (n - 1) = sint n - 1"
proof -
  assume pos: "0 < sint n"
  have up: "sint n < 2 ^ 31" using sint_lt [of n] by simp
  have "sint (n - 1) = signed_take_bit 31 (sint n - 1)"
    by (simp add: sint_word_ariths)
  also have "\<dots> = sint n - 1"
    using pos up by (intro signed_take_bit_int_eq_self) simp_all
  finally show ?thesis .
qed

lemma spec_elements_drop:
  "i < length c \<Longrightarrow>
   spec_elements (drop i c) =
     replicate (nat (max 0 (sint (snd (c ! i))))) (fst (c ! i)) @ spec_elements (drop (Suc i) c)"
  by (simp add: spec_elements_def flip: Cons_nth_drop_Suc)

lemma spec_elements_drop_nonpos:
  "i < length c \<Longrightarrow> sint (snd (c ! i)) \<le> 0 \<Longrightarrow>
   spec_elements (drop i c) = spec_elements (drop (Suc i) c)"
  by (simp add: spec_elements_drop)

lemma elements_skip_spec:
  "i \<le> length c \<Longrightarrow>
   \<exists>i0. elements_skip c i (length c) = Some i0 \<and> i0 \<le> length c
     \<and> (i0 < length c \<longrightarrow> 0 < sint (snd (c ! i0)))
     \<and> spec_elements (drop i c) = spec_elements (drop i0 c)"
proof (induction "length c - i" arbitrary: i)
  case 0
  then have "i = length c" by simp
  then show ?case by (simp add: elements_skip.simps [of c "length c"])
next
  case (Suc d)
  then have i: "i < length c" by simp
  show ?case
  proof (cases "sint (snd (c ! i)) \<le> 0")
    case False
    with i show ?thesis
      by (simp add: elements_skip.simps [of c i] entry_at_def)
  next
    case True
    have "d = length c - Suc i" using Suc.hyps(2) by simp
    from Suc.hyps(1) [OF this] i
    obtain i0 where "elements_skip c (Suc i) (length c) = Some i0" "i0 \<le> length c"
      "i0 < length c \<longrightarrow> 0 < sint (snd (c ! i0))"
      "spec_elements (drop (Suc i) c) = spec_elements (drop i0 c)"
      by auto
    with i True show ?thesis
      by (simp add: elements_skip.simps [of c i] entry_at_def spec_elements_drop_nonpos)
  qed
qed

lemma range_for_end: "curr it = curr e \<Longrightarrow> range_for c it e = Some []"
  by (simp add: range_for.simps [of c it e])

text \<open>
  From an entry \<open>i\<close> with \<open>n\<close> visits left, the loop yields the element \<open>n\<close> times and then what
  the entries after \<open>i\<close> give; \<open>next\<close> says so of the entry after \<open>i\<close>.
\<close>

lemma range_for_entry:
  fixes c :: "'t Counter"
  assumes e: "curr e = length c" and i: "i < length c"
    and "next": "Suc i < length c \<Longrightarrow>
       \<exists>it'. Iter_skip c \<lparr>curr = Suc i, end' = length c, count' = snd (c ! Suc i)\<rparr> = Some it'
         \<and> range_for c it' e = Some (spec_elements (drop (Suc i) c))"
  shows "0 < sint n \<Longrightarrow>
     range_for c \<lparr>curr = i, end' = length c, count' = n\<rparr> e =
       Some (replicate (nat (sint n)) (fst (c ! i)) @ spec_elements (drop (Suc i) c))"
proof (induction "nat (sint n)" arbitrary: n)
  case 0
  then show ?case by simp
next
  case (Suc m)
  let ?it = "\<lparr>curr = i, end' = length c, count' = n\<rparr>"
  let ?rest = "spec_elements (drop (Suc i) c)"
  have dec: "sint (n - 1) = sint n - 1" using Suc.prems by (rule sint_dec)
  have deref: "Iter_deref c ?it = Some (fst (c ! i))"
    using i by (simp add: Iter_deref_def entry_at_def)
  have ne: "curr ?it \<noteq> curr e" using e i by simp
  have inc: "Iter_inc c ?it = Iter_skip c \<lparr>curr = i, end' = length c, count' = n - 1\<rparr>"
    by (simp add: Iter_inc_def)
  show ?case
  proof (cases "m = 0")
    case False
    with Suc.hyps(2) dec have pos: "0 < sint (n - 1)" and m: "m = nat (sint (n - 1))" by simp_all
    from pos have "Iter_skip c \<lparr>curr = i, end' = length c, count' = n - 1\<rparr>
        = Some \<lparr>curr = i, end' = length c, count' = n - 1\<rparr>"
      by (simp add: Iter_skip.simps [of c "\<lparr>curr = i, end' = length c, count' = n - 1\<rparr>"])
    moreover have "range_for c \<lparr>curr = i, end' = length c, count' = n - 1\<rparr> e
        = Some (replicate (nat (sint (n - 1))) (fst (c ! i)) @ ?rest)"
      using m pos by (rule Suc.hyps(1))
    moreover have "fst (c ! i) # replicate (nat (sint (n - 1))) (fst (c ! i))
        = replicate (nat (sint n)) (fst (c ! i))"
      using Suc.hyps(2) m by (simp flip: replicate_Suc)
    ultimately show ?thesis
      using ne deref inc by (simp add: range_for.simps [of c ?it e] flip: append_Cons)
  next
    case True
    with Suc.hyps(2) dec have z: "sint (n - 1) \<le> 0" and one: "nat (sint n) = 1" by simp_all
    show ?thesis
    proof (cases "Suc i = length c")
      case True
      then have "Iter_skip c \<lparr>curr = i, end' = length c, count' = n - 1\<rparr>
          = Some \<lparr>curr = Suc i, end' = length c, count' = n - 1\<rparr>"
        using z i by (simp add: Iter_skip.simps [of c "\<lparr>curr = i, end' = length c, count' = n - 1\<rparr>"])
      moreover have "range_for c \<lparr>curr = Suc i, end' = length c, count' = n - 1\<rparr> e = Some []"
        using True e by (simp add: range_for_end)
      moreover have "?rest = []" using True by (simp add: spec_elements_def)
      ultimately show ?thesis
        using ne deref inc one by (simp add: range_for.simps [of c ?it e])
    next
      case False
      with i have lt: "Suc i < length c" by simp
      from "next" [OF lt] obtain it' where
        sk: "Iter_skip c \<lparr>curr = Suc i, end' = length c, count' = snd (c ! Suc i)\<rparr> = Some it'"
        and rf: "range_for c it' e = Some ?rest"
        by blast
      have "Iter_skip c \<lparr>curr = i, end' = length c, count' = n - 1\<rparr> = Some it'"
        using z i lt False sk
        by (simp add: Iter_skip.simps [of c "\<lparr>curr = i, end' = length c, count' = n - 1\<rparr>"] entry_at_def)
      with rf show ?thesis
        using ne deref inc one by (simp add: range_for.simps [of c ?it e])
    qed
  qed
qed

lemma range_for_from:
  fixes c :: "'t Counter"
  assumes e: "curr e = length c"
  shows "j < length c \<Longrightarrow>
     \<exists>it'. Iter_skip c \<lparr>curr = j, end' = length c, count' = snd (c ! j)\<rparr> = Some it'
       \<and> range_for c it' e = Some (spec_elements (drop j c))"
proof (induction "length c - j" arbitrary: j)
  case 0
  then show ?case by simp
next
  case (Suc d)
  let ?it = "\<lparr>curr = j, end' = length c, count' = snd (c ! j)\<rparr>"
  have "d = length c - Suc j" using Suc.hyps(2) by simp
  note nxt = Suc.hyps(1) [OF this]
  show ?case
  proof (cases "0 < sint (snd (c ! j))")
    case True
    then have "Iter_skip c ?it = Some ?it"
      by (simp add: Iter_skip.simps [of c ?it])
    moreover have "range_for c ?it e = Some (spec_elements (drop j c))"
      using range_for_entry [OF e Suc.prems nxt True] True Suc.prems
      by (simp add: spec_elements_drop)
    ultimately show ?thesis by blast
  next
    case False
    then have z: "sint (snd (c ! j)) \<le> 0" by simp
    show ?thesis
    proof (cases "Suc j = length c")
      case True
      then have "Iter_skip c ?it = Some \<lparr>curr = Suc j, end' = length c, count' = snd (c ! j)\<rparr>"
        using z Suc.prems by (simp add: Iter_skip.simps [of c ?it])
      moreover have "range_for c \<lparr>curr = Suc j, end' = length c, count' = snd (c ! j)\<rparr> e = Some []"
        using True e by (simp add: range_for_end)
      moreover have "spec_elements (drop j c) = []"
      proof -
        have "spec_elements (drop j c) = spec_elements (drop (Suc j) c)"
          using Suc.prems z by (rule spec_elements_drop_nonpos)
        also have "\<dots> = []" using True by (simp add: spec_elements_def)
        finally show ?thesis .
      qed
      ultimately show ?thesis by simp
    next
      case False
      with Suc.prems have lt: "Suc j < length c" by simp
      from nxt [OF lt] obtain it' where
        sk: "Iter_skip c \<lparr>curr = Suc j, end' = length c, count' = snd (c ! Suc j)\<rparr> = Some it'"
        and rf: "range_for c it' e = Some (spec_elements (drop (Suc j) c))"
        by blast
      have "Iter_skip c ?it = Some it'"
        using z Suc.prems lt False sk
        by (simp add: Iter_skip.simps [of c ?it] entry_at_def)
      with rf z Suc.prems show ?thesis
        by (simp add: spec_elements_drop_nonpos)
    qed
  qed
qed

lemma elements_yield_spec: "elements_yield c = Some (spec_elements c)"
proof -
  let ?N = "length c"
  let ?e = "\<lparr>curr = ?N, end' = ?N, count' = 0\<rparr>"
  from elements_skip_spec [of 0 c] obtain i0 where
    sk: "elements_skip c 0 ?N = Some i0" and le: "i0 \<le> ?N"
    and pos: "i0 < ?N \<longrightarrow> 0 < sint (snd (c ! i0))"
    and sp: "spec_elements c = spec_elements (drop i0 c)"
    by auto
  have e: "Iter_ctor c ?N ?N = Some ?e" by (simp add: Iter_ctor_def)
  show ?thesis
  proof (cases "i0 = ?N")
    case True
    then have "spec_elements (drop i0 c) = []" by (simp add: spec_elements_def)
    with sp have "spec_elements c = []" by simp
    with sk e True show ?thesis
      by (simp add: elements_yield_def elements_def Let_def range_for_end)
  next
    case False
    with le have lt: "i0 < ?N" by simp
    let ?b = "\<lparr>curr = i0, end' = ?N, count' = snd (c ! i0)\<rparr>"
    have b: "Iter_ctor c i0 ?N = Some ?b"
      using lt by (simp add: Iter_ctor_def entry_at_def)
    have ce: "curr ?e = ?N" by simp
    from pos lt have p: "0 < sint (snd (c ! i0))" by simp
    have "range_for c ?b ?e = Some (spec_elements (drop i0 c))"
      using range_for_entry [OF ce lt range_for_from [OF ce] p] p lt
      by (simp add: spec_elements_drop)
    with sk b e sp show ?thesis
      by (simp add: elements_yield_def elements_def Let_def)
  qed
qed

lemma main_ct_final_eq:
  "main_ct_final = [(CHR ''d'', - 1), (CHR ''c'', 2), (CHR ''b'', 0), (CHR ''a'', 3)]"
  by (simp add: main_ct_final_def main_ct_updated_eq sub_assign_def assign_loop.simps
      entry_at_def Counter_apply_def um_index_def um_modify_def Counter_il_def um_init_def um_insert_def)

lemma count_list_replicate: "count_list (replicate n x) t = (if x = t then n else 0)"
  by (induction n) auto

lemma set_spec_elements: "set (spec_elements c) \<subseteq> fst ` set c"
  by (auto simp: spec_elements_def intro: rev_image_eqI)

lemma count_list_spec_elements:
  "distinct (map fst c) \<Longrightarrow> count_list (spec_elements c) t = nat (max 0 (sint (count0 c t)))"
proof (induction c)
  case Nil
  show ?case by (simp add: spec_elements_def count0_def)
next
  case (Cons p c)
  have step: "spec_elements (p # c) = replicate (nat (max 0 (sint (snd p)))) (fst p) @ spec_elements c"
    by (simp add: spec_elements_def)
  from Cons.prems have d: "distinct (map fst c)" and fresh: "fst p \<notin> fst ` set c" by simp_all
  show ?case
  proof (cases "fst p = t")
    case True
    with fresh have "t \<notin> set (spec_elements c)" using set_spec_elements [of c] by auto
    then have "count_list (spec_elements c) t = 0" by (simp add: count_list_0_iff)
    with True show ?thesis
      by (simp add: step count_list_replicate count0_def)
  next
    case False
    with Cons.IH [OF d] show ?thesis
      by (simp add: step count_list_replicate count0_def)
  qed
qed

lemma length_spec_elements:
  "length (spec_elements c) = (\<Sum>p\<leftarrow>c. nat (max 0 (sint (snd p))))"
  by (simp add: spec_elements_def length_concat comp_def)

text \<open>
  C7: the loop over \<^verbatim>\<open>elements()\<close> ends and visits, entry by entry in iteration order, each
  element \<open>max(count, 0)\<close> times; the number of items is the sum of the positive counts; and,
  the keys of the map being distinct, an element is visited \<open>max(count, 0)\<close> times in all,
  one with a count of 0 or less (or with no entry) never.
\<close>

theorem elements_yield_counts:
  "\<exists>ys. elements_yield c = Some ys
     \<and> ys = concat (map (\<lambda>p. replicate (nat (max 0 (sint (snd p)))) (fst p)) c)
     \<and> length ys = (\<Sum>p\<leftarrow>c. nat (max 0 (sint (snd p))))
     \<and> (distinct (map fst c) \<longrightarrow>
          (\<forall>t. count_list ys t = nat (max 0 (sint (count0 c t)))
             \<and> (sint (count0 c t) \<le> 0 \<longrightarrow> t \<notin> set ys)))"
proof -
  have "count_list (spec_elements c) t = nat (max 0 (sint (count0 c t)))
      \<and> (sint (count0 c t) \<le> 0 \<longrightarrow> t \<notin> set (spec_elements c))"
    if "distinct (map fst c)" for t
    using count_list_spec_elements [OF that, of t] by (auto simp flip: count_list_0_iff)
  then show ?thesis
    using elements_yield_spec [of c] length_spec_elements [of c]
    by (simp add: spec_elements_def)
qed

theorem elements_yield_counts_witness:
  "distinct (map fst main_ct_final)
   \<and> elements_yield main_ct_final = Some ''ccaaa''
   \<and> length ''ccaaa'' = (\<Sum>p\<leftarrow>main_ct_final. nat (max 0 (sint (snd p))))
   \<and> count_list ''ccaaa'' (CHR ''a'') = nat (max 0 (sint (count0 main_ct_final (CHR ''a''))))
   \<and> sint (count0 main_ct_final (CHR ''d'')) \<le> 0
   \<and> CHR ''d'' \<notin> set ''ccaaa''"
  using elements_yield_counts [of main_ct_final]
  by (simp add: main_ct_final_eq count0_def eval_nat_numeral)

end
